theory Spec2Isabelle
  imports Main "HOL-Library.AList"
begin

section \<open>N-Queens as a constraint satisfaction problem, solved by backtracking\<close>

text \<open>
  The development embeds the notebook \<^verbatim>\<open>AIND-Constraint_Satisfaction.ipynb\<close>: the
  class \<^verbatim>\<open>NQueensCSP\<close> (cell 6) and the search functions \<^verbatim>\<open>select\<close>,
  \<^verbatim>\<open>order_values\<close>, \<^verbatim>\<open>backtracking_search\<close> and \<^verbatim>\<open>backtrack\<close> (cell 8).

  Python exceptions are values of \<open>error\<close>; a function that can raise returns
  \<open>error + 'a\<close> with \<open>Inl\<close> for the exception.
\<close>

datatype error = ValueError | IndexError | KeyError | AttributeError | RecursionError

subsection \<open>Symbols and assignments\<close>

text \<open>
  \<open>A k\<close> is the sympy symbol named \<^verbatim>\<open>A<k>\<close>. An assignment is a Python dict from symbols
  to integers; it is kept as an association list in insertion order, which makes
  \<^verbatim>\<open>len\<close> the length of the list. A list is a dict when its keys are distinct; every
  operation below keeps them so.
\<close>

datatype symbol = A int

type_synonym assignment = "(symbol \<times> int) list"

definition keys :: "assignment \<Rightarrow> symbol list" where
  "keys d = map fst d"

text \<open>\<^verbatim>\<open>d[k] = v\<close>\<close>

definition setitem :: "symbol \<Rightarrow> int \<Rightarrow> assignment \<Rightarrow> assignment" where
  "setitem k v d = AList.update k v d"

text \<open>\<^verbatim>\<open>del d[k]\<close> raises KeyError when the key is absent.\<close>

definition delitem :: "symbol \<Rightarrow> assignment \<Rightarrow> error + assignment" where
  "delitem k d = (if k \<in> set (keys d) then Inr (AList.delete k d) else Inl KeyError)"

text \<open>\<^verbatim>\<open>d.update(other)\<close>\<close>

definition dict_update :: "assignment \<Rightarrow> assignment \<Rightarrow> assignment" where
  "dict_update d other = fold (\<lambda>(k, v). setitem k v) other d"

text \<open>\<^verbatim>\<open>for k in ks: del d[k]\<close>\<close>

fun delitems :: "symbol list \<Rightarrow> assignment \<Rightarrow> error + assignment" where
  "delitems [] d = Inr d"
| "delitems (k # ks) d =
     (case delitem k d of Inl e \<Rightarrow> Inl e | Inr d' \<Rightarrow> delitems ks d')"

subsection \<open>The constraint-expression layer\<close>

text \<open>
  Modelled from the spec: the helper \<^verbatim>\<open>util.constraint\<close>, imported by cell 1, is not
  part of the notebook. The spec (sections 3, 6 and 9) describes a constraint as a tagged
  variant over row difference and diagonal difference, holding the variable pair and,
  for the diagonal, an integer offset, whose evaluation under a set of bindings is true,
  false or indeterminate, and which is false only when all its variables are bound and
  violate the condition. The two conditions themselves are those of cell 3:
  \<^verbatim>\<open>Ne(X0, X1)\<close> and \<^verbatim>\<open>And(Ne(X0, X1 + Y), Ne(X0, X1 - Y))\<close>.

  An argument of a constraint is a free symbol or, once substituted, a number.
\<close>

datatype arg = Sym symbol | Num int

datatype constraint = DiffRow arg arg | DiffDiag arg arg int

text \<open>
  \<^verbatim>\<open>diffRow.subs({rows[0]: xi, rows[1]: xj})\<close> and
  \<^verbatim>\<open>diffDiag.subs({rows[0]: xi, rows[1]: xj, col_diff: d})\<close>
\<close>

definition diffRow :: "symbol \<Rightarrow> symbol \<Rightarrow> constraint" where
  "diffRow xi xj = DiffRow (Sym xi) (Sym xj)"

definition diffDiag :: "symbol \<Rightarrow> symbol \<Rightarrow> int \<Rightarrow> constraint" where
  "diffDiag xi xj d = DiffDiag (Sym xi) (Sym xj) d"

fun subs_arg :: "(symbol \<rightharpoonup> int) \<Rightarrow> arg \<Rightarrow> arg" where
  "subs_arg \<sigma> (Sym s) = (case \<sigma> s of None \<Rightarrow> Sym s | Some v \<Rightarrow> Num v)"
| "subs_arg \<sigma> (Num v) = Num v"

text \<open>\<^verbatim>\<open>constraint.subs(bindings)\<close>\<close>

fun subs :: "constraint \<Rightarrow> (symbol \<rightharpoonup> int) \<Rightarrow> constraint" where
  "subs (DiffRow x0 x1) \<sigma> = DiffRow (subs_arg \<sigma> x0) (subs_arg \<sigma> x1)"
| "subs (DiffDiag x0 x1 y) \<sigma> = DiffDiag (subs_arg \<sigma> x0) (subs_arg \<sigma> x1) y"

text \<open>The value of a constraint: \<open>None\<close> is indeterminate (a free symbol remains).\<close>

fun evaluate :: "constraint \<Rightarrow> bool option" where
  "evaluate (DiffRow (Num x0) (Num x1)) = Some (x0 \<noteq> x1)"
| "evaluate (DiffDiag (Num x0) (Num x1) y) = Some (x0 \<noteq> x1 + y \<and> x0 \<noteq> x1 - y)"
| "evaluate (DiffRow _ _) = None"
| "evaluate (DiffDiag _ _ _) = None"

text \<open>Python truthiness of a substituted constraint: only the value false is falsy.\<close>

definition truthy :: "constraint \<Rightarrow> bool" where
  "truthy c = (evaluate c \<noteq> Some False)"

fun arg_symbols :: "arg \<Rightarrow> symbol set" where
  "arg_symbols (Sym s) = {s}"
| "arg_symbols (Num v) = {}"

fun free_symbols :: "constraint \<Rightarrow> symbol set" where
  "free_symbols (DiffRow x0 x1) = arg_symbols x0 \<union> arg_symbols x1"
| "free_symbols (DiffDiag x0 x1 y) = arg_symbols x0 \<union> arg_symbols x1"

subsection \<open>The class NQueensCSP\<close>

text \<open>
  The fields of an instance. \<open>size_csp\<close> is \<^verbatim>\<open>self.size\<close> and \<open>constraints_index\<close> is
  \<^verbatim>\<open>self._constraints\<close>. The search calls \<^verbatim>\<open>csp.inference\<close> through the instance, and
  the class documents that it can be overridden, so the hook is a field: \<open>None\<close> is
  Python's \<^verbatim>\<open>None\<close>, the failure signal. A domain is a Python set of integers, kept as
  the list of its elements in iteration order.
\<close>

record csp =
  size_csp :: int
  variables :: "symbol list"
  domains :: "symbol \<rightharpoonup> int list"
  constraints_index :: "symbol \<rightharpoonup> constraint set"
  inference :: "symbol \<Rightarrow> int \<Rightarrow> assignment option"

text \<open>
  \<^verbatim>\<open>symbols('A:%d' % N)\<close> is a call into the sympy library: for \<open>N \<ge> 0\<close> the range
  \<^verbatim>\<open>A:N\<close> gives the symbols \<^verbatim>\<open>A0\<close> to \<^verbatim>\<open>A<N-1>\<close> (none for \<open>N = 0\<close>); for \<open>N < 0\<close> the text
  \<^verbatim>\<open>A:-k\<close> is not a range, and sympy's parser raises ValueError on it.
\<close>

definition symbols :: "int \<Rightarrow> error + symbol list" where
  "symbols N = (if N < 0 then Inl ValueError else Inr (map A [0..N - 1]))"

text \<open>Indexing a tuple, \<^verbatim>\<open>_vars[i]\<close>: negative indices count from the end.\<close>

definition getitem :: "symbol list \<Rightarrow> int \<Rightarrow> error + symbol" where
  "getitem xs i =
     (let n = int (length xs); k = (if i < 0 then n + i else i)
      in if 0 \<le> k \<and> k < n then Inr (xs ! nat k) else Inl IndexError)"

text \<open>\<^verbatim>\<open>self._constraints[x].update(cs)\<close>\<close>

definition update_constraints ::
  "symbol \<Rightarrow> constraint set \<Rightarrow> (symbol \<rightharpoonup> constraint set) \<Rightarrow> error + (symbol \<rightharpoonup> constraint set)" where
  "update_constraints x cs idx =
     (case idx x of None \<Rightarrow> Inl KeyError | Some s \<Rightarrow> Inr (idx(x \<mapsto> s \<union> cs)))"

text \<open>The inner loop of the constructor, over the \<open>j\<close> that remain.\<close>

fun for_j ::
  "symbol list \<Rightarrow> int \<Rightarrow> int list \<Rightarrow> (symbol \<rightharpoonup> constraint set) \<Rightarrow> error + (symbol \<rightharpoonup> constraint set)" where
  "for_j vars i [] idx = Inr idx"
| "for_j vars i (j # js) idx =
     (case getitem vars i of
        Inl e \<Rightarrow> Inl e
      | Inr xi \<Rightarrow>
          (case getitem vars j of
             Inl e \<Rightarrow> Inl e
           | Inr xj \<Rightarrow>
               (let diffRow_constraint = diffRow xi xj;
                    diffDiag_constraint = diffDiag xi xj (j - i)
                in (case update_constraints xi {diffRow_constraint, diffDiag_constraint} idx of
                      Inl e \<Rightarrow> Inl e
                    | Inr idx1 \<Rightarrow>
                        (case update_constraints xj {diffRow_constraint, diffDiag_constraint} idx1 of
                           Inl e \<Rightarrow> Inl e
                         | Inr idx2 \<Rightarrow> for_j vars i js idx2)))))"

text \<open>The outer loop, over the \<open>i\<close> that remain; \<open>N\<close> bounds the inner range.\<close>

fun for_i ::
  "symbol list \<Rightarrow> int \<Rightarrow> int list \<Rightarrow> (symbol \<rightharpoonup> constraint set) \<Rightarrow> error + (symbol \<rightharpoonup> constraint set)" where
  "for_i vars N [] idx = Inr idx"
| "for_i vars N (i # is) idx =
     (case for_j vars i (filter (\<lambda>j. i < j) [0..N - 1]) idx of
        Inl e \<Rightarrow> Inl e
      | Inr idx' \<Rightarrow> for_i vars N is idx')"

text \<open>\<^verbatim>\<open>NQueensCSP.inference\<close>: the empty dict, always.\<close>

definition NQueensCSP_inference :: "symbol \<Rightarrow> int \<Rightarrow> assignment option" where
  "NQueensCSP_inference var val = Some []"

text \<open>
  \<^verbatim>\<open>NQueensCSP.__init__\<close>. The domain \<^verbatim>\<open>set(range(N))\<close> is listed in increasing order, the
  order in which CPython iterates a set of small non-negative integers; the order decides
  which solution the search finds first.
\<close>

definition NQueensCSP :: "int \<Rightarrow> error + csp" where
  "NQueensCSP N =
     (case symbols N of
        Inl e \<Rightarrow> Inl e
      | Inr vars \<Rightarrow>
          (let domain = [0..N - 1] in
           (case for_i vars N [0..N - 1] (map_of (map (\<lambda>x. (x, {})) vars)) of
              Inl e \<Rightarrow> Inl e
            | Inr idx \<Rightarrow>
                Inr \<lparr>size_csp = N, variables = vars,
                     domains = map_of (map (\<lambda>v. (v, domain)) vars),
                     constraints_index = idx,
                     inference = NQueensCSP_inference\<rparr>)))"

text \<open>The property \<^verbatim>\<open>constraints\<close>: the union of all entries of the index.\<close>

definition constraints :: "csp \<Rightarrow> constraint set" where
  "constraints c = \<Union> (ran (constraints_index c))"

text \<open>\<^verbatim>\<open>is_complete\<close>: \<^verbatim>\<open>len(assignment) == self.size\<close>\<close>

definition is_complete :: "csp \<Rightarrow> assignment \<Rightarrow> bool" where
  "is_complete c assignment = (int (length assignment) = size_csp c)"

text \<open>
  \<^verbatim>\<open>is_consistent\<close>: each constraint of \<^verbatim>\<open>self._constraints[var]\<close> is substituted twice,
  first \<open>var\<close> by \<open>val\<close>, then the whole assignment, and the result is tested for truth.
\<close>

definition is_consistent :: "csp \<Rightarrow> symbol \<Rightarrow> int \<Rightarrow> assignment \<Rightarrow> error + bool" where
  "is_consistent c var val assignment =
     (case constraints_index c var of
        None \<Rightarrow> Inl KeyError
      | Some cs \<Rightarrow>
          Inr (\<forall>constraint \<in> cs.
                 truthy (subs (subs constraint [var \<mapsto> val]) (map_of assignment))))"

subsection \<open>Backtracking search\<close>

text \<open>\<^verbatim>\<open>select\<close>: the first variable that is not a key of the assignment, or \<^verbatim>\<open>None\<close>.\<close>

definition select :: "csp \<Rightarrow> assignment \<Rightarrow> symbol option" where
  "select c assignment = find (\<lambda>var. var \<notin> set (keys assignment)) (variables c)"

text \<open>\<^verbatim>\<open>order_values\<close>: \<^verbatim>\<open>csp.domains[var]\<close>, a KeyError for a missing key, \<^verbatim>\<open>None\<close> included.\<close>

definition order_values :: "symbol option \<Rightarrow> assignment \<Rightarrow> csp \<Rightarrow> error + int list" where
  "order_values var assignment c =
     (case var of
        None \<Rightarrow> Inl KeyError
      | Some v \<Rightarrow> (case domains c v of None \<Rightarrow> Inl KeyError | Some d \<Rightarrow> Inr d))"

text \<open>\<^verbatim>\<open>if result:\<close> holds for a dict that is not empty.\<close>

definition is_true :: "assignment option \<Rightarrow> bool" where
  "is_true result = (case result of None \<Rightarrow> False | Some d \<Rightarrow> d \<noteq> [])"

text \<open>
  \<^verbatim>\<open>backtrack\<close> mutates the one assignment dict and returns it or \<^verbatim>\<open>None\<close>; the model
  returns the result together with the dict as the call leaves it. The first argument is
  the number of stack frames the interpreter still allows: a call with none left raises
  RecursionError. \<open>backtrack_for\<close> is the \<^verbatim>\<open>for val in ...\<close> loop over the values that
  remain.
\<close>

fun backtrack :: "nat \<Rightarrow> assignment \<Rightarrow> csp \<Rightarrow> error + (assignment option \<times> assignment)"
  and backtrack_for ::
    "nat \<Rightarrow> symbol \<Rightarrow> int list \<Rightarrow> assignment \<Rightarrow> csp \<Rightarrow> error + (assignment option \<times> assignment)"
where
  "backtrack 0 assignment c = Inl RecursionError"
| "backtrack (Suc frames) assignment c =
     (if is_complete c assignment then Inr (Some assignment, assignment)
      else
        let var = select c assignment in
        case order_values var assignment c of
          Inl e \<Rightarrow> Inl e
        | Inr vals \<Rightarrow>
            (case var of
               None \<Rightarrow> Inl KeyError
             | Some v \<Rightarrow> backtrack_for frames v vals assignment c))"
| "backtrack_for frames var [] assignment c = Inr (None, assignment)"
| "backtrack_for frames var (val # vals) assignment c =
     (case is_consistent c var val assignment of
        Inl e \<Rightarrow> Inl e
      | Inr False \<Rightarrow> backtrack_for frames var vals assignment c
      | Inr True \<Rightarrow>
          let a1 = setitem var val assignment in
          (case inference c var val of
             None \<Rightarrow>
               (case delitem var a1 of
                  Inl e \<Rightarrow> Inl e
                | Inr a2 \<Rightarrow> Inl AttributeError)
           | Some inferences \<Rightarrow>
               (case backtrack frames (dict_update a1 inferences) c of
                  Inl e \<Rightarrow> Inl e
                | Inr (result, a2) \<Rightarrow>
                    if is_true result then Inr (result, a2)
                    else
                      (case delitem var a2 of
                         Inl e \<Rightarrow> Inl e
                       | Inr a3 \<Rightarrow>
                           (case delitems (keys inferences) a3 of
                              Inl e \<Rightarrow> Inl e
                            | Inr a4 \<Rightarrow> backtrack_for frames var vals a4 c)))))"

text \<open>
  \<^verbatim>\<open>backtracking_search\<close>: \<^verbatim>\<open>backtrack({}, csp)\<close>, the result alone, under the same
  allowance of frames.
\<close>

definition backtracking_search :: "nat \<Rightarrow> csp \<Rightarrow> error + assignment option" where
  "backtracking_search frames c =
     (case backtrack frames [] c of Inl e \<Rightarrow> Inl e | Inr (result, a) \<Rightarrow> Inr result)"

subsection \<open>Vocabulary of the proofs\<close>

text \<open>The two constraints the constructor creates for the columns \<open>i\<close> and \<open>j\<close>.\<close>

definition pair_constraints :: "int \<Rightarrow> int \<Rightarrow> constraint set" where
  "pair_constraints i j = {diffRow (A i) (A j), diffDiag (A i) (A j) (j - i)}"

text \<open>The constraint index after the constructor has handled the pairs \<open>P\<close>: every
  variable \<open>A k\<close> with \<open>0 \<le> k < N\<close> holds the constraints of the pairs it belongs to.\<close>

definition index_of :: "int \<Rightarrow> (int \<times> int) set \<Rightarrow> (symbol \<rightharpoonup> constraint set)" where
  "index_of N P =
     (\<lambda>v. case v of A k \<Rightarrow>
        if 0 \<le> k \<and> k < N
        then Some (\<Union>p \<in> {p \<in> P. k = fst p \<or> k = snd p}. pair_constraints (fst p) (snd p))
        else None)"

text \<open>The pairs the two loops of the constructor run through.\<close>

definition all_pairs :: "int \<Rightarrow> (int \<times> int) set" where
  "all_pairs N = {(i, j). 0 \<le> i \<and> i < j \<and> j < N}"

text \<open>Queens in columns \<open>i\<close> and \<open>j\<close>, rows \<open>x\<close> and \<open>y\<close>, share a row or a diagonal.\<close>

definition attacks :: "int \<Rightarrow> int \<Rightarrow> int \<Rightarrow> int \<Rightarrow> bool" where
  "attacks i x j y = (x = y \<or> \<bar>x - y\<bar> = \<bar>i - j\<bar>)"

text \<open>What a call of \<^verbatim>\<open>backtrack\<close> on the dict \<open>a\<close> leaves behind: on \<^verbatim>\<open>None\<close> the dict is
  as it was; a returned dict is the dict itself, and no shorter than on entry.\<close>

definition restored ::
  "assignment \<Rightarrow> error + (assignment option \<times> assignment) \<Rightarrow> bool" where
  "restored a res =
     (case res of
        Inl e \<Rightarrow> True
      | Inr (None, a') \<Rightarrow> a' = a
      | Inr (Some x, a') \<Rightarrow> x = a' \<and> length a \<le> length a')"

text \<open>A dict that binds variables of the \<open>N\<close>-queens model only.\<close>

definition partial :: "int \<Rightarrow> assignment \<Rightarrow> bool" where
  "partial N a = (distinct (keys a) \<and> set (keys a) \<subseteq> A ` {0..N - 1})"

text \<open>A partial placement: rows inside the board, no two queens attacking.\<close>

definition placement :: "int \<Rightarrow> assignment \<Rightarrow> bool" where
  "placement N a =
     (partial N a \<and>
      (\<forall>(s, w) \<in> set a. 0 \<le> w \<and> w < N) \<and>
      (\<forall>i x j y. (A i, x) \<in> set a \<and> (A j, y) \<in> set a \<and> i \<noteq> j \<longrightarrow> \<not> attacks i x j y))"


text \<open>
  A 2-queens model whose inference hook is overridden to signal failure, always.
\<close>

definition failing_csp :: csp where
  "failing_csp = (projr (NQueensCSP 2))\<lparr>inference := (\<lambda>var val. None)\<rparr>"






section \<open>The constructor\<close>

text \<open>
  The two loops are followed through the set of pairs already handled; the result is
  the index of all pairs \<open>i < j\<close>.
\<close>

lemma getitem_symbols: "0 \<le> i \<Longrightarrow> i < N \<Longrightarrow> getitem (map A [0..N - 1]) i = Inr (A i)"
  by (simp add: getitem_def Let_def)

lemma map_of_const:
  "map_of (map (\<lambda>x. (x, c)) xs) v = (if v \<in> set xs then Some c else None)"
  by (induction xs) auto

lemma index_of_empty: "map_of (map (\<lambda>x. (x, {})) (map A [0..N - 1])) = index_of N {}"
proof
  fix v
  obtain k where v: "v = A k" by (cases v)
  show "map_of (map (\<lambda>x. (x, {})) (map A [0..N - 1])) v = index_of N {} v"
    unfolding map_of_const by (auto simp add: index_of_def v)
qed

lemma update_constraints_index_of:
  assumes "0 \<le> i" "i < N" "0 \<le> j" "j < N"
  shows "\<exists>idx1. update_constraints (A i) (pair_constraints i j) (index_of N P) = Inr idx1
           \<and> update_constraints (A j) (pair_constraints i j) idx1 = Inr (index_of N (insert (i, j) P))"
proof -
  let ?idx1 = "(index_of N P)(A i \<mapsto> the (index_of N P (A i)) \<union> pair_constraints i j)"
  have 1: "update_constraints (A i) (pair_constraints i j) (index_of N P) = Inr ?idx1"
    using assms by (simp add: update_constraints_def index_of_def)
  have 2: "update_constraints (A j) (pair_constraints i j) ?idx1 = Inr (index_of N (insert (i, j) P))"
  proof -
    have "?idx1 (A j) \<noteq> None" using assms by (simp add: index_of_def)
    moreover have "?idx1(A j \<mapsto> the (?idx1 (A j)) \<union> pair_constraints i j) = index_of N (insert (i, j) P)"
    proof
      fix v obtain k where v: "v = A k" by (cases v)
      show "(?idx1(A j \<mapsto> the (?idx1 (A j)) \<union> pair_constraints i j)) v = index_of N (insert (i, j) P) v"
        using assms unfolding v index_of_def by auto
    qed
    ultimately show ?thesis by (auto simp add: update_constraints_def)
  qed
  show ?thesis using 1 2 by blast
qed

lemma for_j_index_of:
  assumes "0 \<le> i" "i < N"
  shows "\<forall>j \<in> set js. 0 \<le> j \<and> j < N \<Longrightarrow>
     for_j (map A [0..N - 1]) i js (index_of N P) = Inr (index_of N (P \<union> {i} \<times> set js))"
proof (induction js arbitrary: P)
  case Nil
  then show ?case by simp
next
  case (Cons j js)
  then have j: "0 \<le> j" "j < N" by auto
  obtain idx1 where
    1: "update_constraints (A i) (pair_constraints i j) (index_of N P) = Inr idx1" and
    2: "update_constraints (A j) (pair_constraints i j) idx1 = Inr (index_of N (insert (i, j) P))"
    using update_constraints_index_of [OF assms j] by blast
  have "for_j (map A [0..N - 1]) i (j # js) (index_of N P)
      = for_j (map A [0..N - 1]) i js (index_of N (insert (i, j) P))"
    using 1 2 assms j by (simp add: getitem_symbols pair_constraints_def Let_def)
  also have "\<dots> = Inr (index_of N (insert (i, j) P \<union> {i} \<times> set js))"
    using Cons by simp
  also have "insert (i, j) P \<union> {i} \<times> set js = P \<union> {i} \<times> set (j # js)" by auto
  finally show ?case .
qed

lemma for_i_index_of:
  "\<forall>i \<in> set is. 0 \<le> i \<and> i < N \<Longrightarrow>
     for_i (map A [0..N - 1]) N is (index_of N P)
       = Inr (index_of N (P \<union> {(i, j). i \<in> set is \<and> i < j \<and> j < N}))"
proof (induction "is" arbitrary: P)
  case Nil
  then show ?case by simp
next
  case (Cons i "is")
  then have i: "0 \<le> i" "i < N" by auto
  have "for_j (map A [0..N - 1]) i (filter (\<lambda>j. i < j) [0..N - 1]) (index_of N P)
      = Inr (index_of N (P \<union> {i} \<times> set (filter (\<lambda>j. i < j) [0..N - 1])))"
    by (rule for_j_index_of [OF i]) auto
  then have "for_i (map A [0..N - 1]) N (i # is) (index_of N P)
      = for_i (map A [0..N - 1]) N is (index_of N (P \<union> {i} \<times> set (filter (\<lambda>j. i < j) [0..N - 1])))"
    by simp
  also have "\<dots> = Inr (index_of N (P \<union> {i} \<times> set (filter (\<lambda>j. i < j) [0..N - 1])
       \<union> {(i, j). i \<in> set is \<and> i < j \<and> j < N}))"
    using Cons by simp
  also have "P \<union> {i} \<times> set (filter (\<lambda>j. i < j) [0..N - 1]) \<union> {(i, j). i \<in> set is \<and> i < j \<and> j < N}
      = P \<union> {(i', j). i' \<in> set (i # is) \<and> i' < j \<and> j < N}"
    using i by auto
  finally show ?case .
qed

lemma NQueensCSP_eq:
  assumes "0 \<le> N"
  shows "NQueensCSP N =
     Inr \<lparr>size_csp = N, variables = map A [0..N - 1],
          domains = map_of (map (\<lambda>v. (v, [0..N - 1])) (map A [0..N - 1])),
          constraints_index = index_of N (all_pairs N),
          inference = NQueensCSP_inference\<rparr>"
proof -
  have "for_i (map A [0..N - 1]) N [0..N - 1] (index_of N {})
      = Inr (index_of N ({} \<union> {(i, j). i \<in> set [0..N - 1] \<and> i < j \<and> j < N}))"
    by (rule for_i_index_of) auto
  moreover have "{} \<union> {(i, j). i \<in> set [0..N - 1] \<and> i < j \<and> j < N} = all_pairs N"
    by (auto simp add: all_pairs_def)
  ultimately show ?thesis
    using assms by (simp add: NQueensCSP_def symbols_def index_of_empty del: map_map)
qed

section \<open>Consistency in the N-queens model\<close>

lemma subs_arg_twice:
  "subs_arg \<sigma> (subs_arg [x \<mapsto> v] a) = subs_arg (\<sigma>(x \<mapsto> v)) a"
  by (cases a) auto

lemma subs_twice: "subs (subs con [x \<mapsto> v]) \<sigma> = subs con (\<sigma>(x \<mapsto> v))"
  by (cases con) (simp_all add: subs_arg_twice)

lemma truthy_diffRow:
  "truthy (subs (diffRow x y) \<tau>) = (\<forall>a b. \<tau> x = Some a \<and> \<tau> y = Some b \<longrightarrow> a \<noteq> b)"
  by (auto simp add: truthy_def diffRow_def split: option.splits)

lemma truthy_diffDiag:
  "truthy (subs (diffDiag x y d) \<tau>) =
     (\<forall>a b. \<tau> x = Some a \<and> \<tau> y = Some b \<longrightarrow> a \<noteq> b + d \<and> a \<noteq> b - d)"
  by (auto simp add: truthy_def diffDiag_def split: option.splits)

lemma attacks_less:
  "i < j \<Longrightarrow> attacks i a j b = (a = b \<or> a = b + (j - i) \<or> a = b - (j - i))"
  unfolding attacks_def by arith

lemma attacks_sym: "attacks i a j b = attacks j b i a"
  unfolding attacks_def by arith

lemma truthy_pair:
  assumes "i < j"
  shows "(\<forall>con \<in> pair_constraints i j. truthy (subs con \<tau>)) =
     (\<forall>a b. \<tau> (A i) = Some a \<and> \<tau> (A j) = Some b \<longrightarrow> \<not> attacks i a j b)"
  unfolding pair_constraints_def
  by (auto simp add: truthy_diffRow truthy_diffDiag attacks_less [OF assms])

lemma NQueensCSP_fields:
  assumes "NQueensCSP N = Inr c"
  shows "0 \<le> N" and "size_csp c = N" and "variables c = map A [0..N - 1]"
    and "inference c = NQueensCSP_inference"
    and "constraints_index c = index_of N (all_pairs N)"
    and "domains c = map_of (map (\<lambda>v. (v, [0..N - 1])) (map A [0..N - 1]))"
proof -
  show N: "0 \<le> N"
    using assms by (cases "0 \<le> N") (simp_all add: NQueensCSP_def symbols_def)
  from NQueensCSP_eq [OF N] assms
  have c: "c = \<lparr>size_csp = N, variables = map A [0..N - 1],
          domains = map_of (map (\<lambda>v. (v, [0..N - 1])) (map A [0..N - 1])),
          constraints_index = index_of N (all_pairs N),
          inference = NQueensCSP_inference\<rparr>" by simp
  show "size_csp c = N" "variables c = map A [0..N - 1]"
    "inference c = NQueensCSP_inference"
    "constraints_index c = index_of N (all_pairs N)"
    "domains c = map_of (map (\<lambda>v. (v, [0..N - 1])) (map A [0..N - 1]))"
    by (simp_all add: c del: map_map)
qed

lemma NQueensCSP_domains:
  assumes "NQueensCSP N = Inr c" "0 \<le> k" "k < N"
  shows "domains c (A k) = Some [0..N - 1]"
  using assms(2,3) unfolding NQueensCSP_fields(6) [OF assms(1)] map_of_const by auto

lemma is_consistent_NQueens:
  assumes "NQueensCSP N = Inr c" "0 \<le> k" "k < N"
  shows "is_consistent c (A k) v a =
     Inr (\<forall>i w. 0 \<le> i \<and> i < N \<and> i \<noteq> k \<and> map_of a (A i) = Some w \<longrightarrow> \<not> attacks i w k v)"
proof -
  let ?\<tau> = "(map_of a)(A k \<mapsto> v)"
  let ?S = "\<Union>p \<in> {p \<in> all_pairs N. k = fst p \<or> k = snd p}. pair_constraints (fst p) (snd p)"
  have idx: "constraints_index c (A k) = Some ?S"
    using assms by (simp add: NQueensCSP_fields(5) [OF assms(1)] index_of_def)
  have "(\<forall>con \<in> ?S. truthy (subs con ?\<tau>)) =
        (\<forall>p \<in> {p \<in> all_pairs N. k = fst p \<or> k = snd p}.
            \<forall>con \<in> pair_constraints (fst p) (snd p). truthy (subs con ?\<tau>))"
    by blast
  also have "\<dots> = (\<forall>p \<in> {p \<in> all_pairs N. k = fst p \<or> k = snd p}.
       \<forall>a b. ?\<tau> (A (fst p)) = Some a \<and> ?\<tau> (A (snd p)) = Some b \<longrightarrow> \<not> attacks (fst p) a (snd p) b)"
    by (intro ball_cong refl truthy_pair) (auto simp add: all_pairs_def)
  also have "\<dots> = (\<forall>i w. 0 \<le> i \<and> i < N \<and> i \<noteq> k \<and> map_of a (A i) = Some w \<longrightarrow> \<not> attacks i w k v)"
    (is "?L = ?R")
  proof
    assume L: ?L
    show ?R
    proof (intro allI impI)
      fix i w assume h: "0 \<le> i \<and> i < N \<and> i \<noteq> k \<and> map_of a (A i) = Some w"
      show "\<not> attacks i w k v"
      proof (cases "i < k")
        case True
        then have "(i, k) \<in> {p \<in> all_pairs N. k = fst p \<or> k = snd p}"
          using h assms by (simp add: all_pairs_def)
        from L [rule_format, OF this, of w v] h True show ?thesis by simp
      next
        case False
        then have "(k, i) \<in> {p \<in> all_pairs N. k = fst p \<or> k = snd p}"
          using h assms by (simp add: all_pairs_def)
        from L [rule_format, OF this, of v w] h False show ?thesis
          by (simp add: attacks_sym [of i w k v])
      qed
    qed
  next
    assume R: ?R
    show ?L
    proof (intro ballI allI impI)
      fix p a' b
      assume p: "p \<in> {p \<in> all_pairs N. k = fst p \<or> k = snd p}"
        and ab: "?\<tau> (A (fst p)) = Some a' \<and> ?\<tau> (A (snd p)) = Some b"
      obtain i j where ij: "p = (i, j)" by (cases p)
      from p ij have r: "0 \<le> i" "i < j" "j < N" "k = i \<or> k = j" by (auto simp add: all_pairs_def)
      show "\<not> attacks (fst p) a' (snd p) b"
      proof (cases "k = i")
        case True
        with ab ij r have "a' = v" "map_of a (A j) = Some b" by auto
        with R [rule_format, of j b] r True show ?thesis
          by (simp add: ij attacks_sym [of i v j b])
      next
        case False
        with r have kj: "k = j" by simp
        with ab ij r have "b = v" "map_of a (A i) = Some a'" by auto
        with R [rule_format, of i a'] r kj show ?thesis by (simp add: ij)
      qed
    qed
  qed
  finally show ?thesis
    by (simp add: is_consistent_def idx subs_twice)
qed

section \<open>The search\<close>

text \<open>
  The two recursive equations are unfolded by hand. With the inference hook of
  \<^verbatim>\<open>NQueensCSP\<close> a failed call leaves the dict as it found it, which gives the loop a
  simpler equation.
\<close>

declare backtrack.simps(2) [simp del] backtrack_for.simps(2) [simp del]
lemmas bt = backtrack.simps(2) backtrack_for.simps(2)

lemma setitem_fresh: "k \<notin> set (keys d) \<Longrightarrow> setitem k v d = d @ [(k, v)]"
  unfolding setitem_def keys_def by (induction d) auto

lemma delitem_fresh: "k \<notin> set (keys d) \<Longrightarrow> delitem k (d @ [(k, v)]) = Inr d"
  unfolding delitem_def keys_def by (induction d) (auto simp add: AList.delete_eq)

lemma dict_update_empty: "dict_update d [] = d"
  by (simp add: dict_update_def)

lemma select_Some:
  "select c a = Some v \<Longrightarrow> v \<in> set (variables c) \<and> v \<notin> set (keys a)"
  unfolding select_def by (auto simp add: find_Some_iff)

lemma backtrack_for_restored:
  assumes inf: "inference c = NQueensCSP_inference"
    and IH: "\<And>a. restored a (backtrack f a c)"
  shows "var \<notin> set (keys a) \<Longrightarrow> restored a (backtrack_for f var vals a c)"
proof (induction vals)
  case Nil
  then show ?case by (simp add: restored_def)
next
  case (Cons val vals)
  let ?a1 = "a @ [(var, val)]"
  have a1: "setitem var val a = ?a1" using Cons.prems by (rule setitem_fresh)
  have del: "delitem var ?a1 = Inr a" using Cons.prems by (rule delitem_fresh)
  show ?case
  proof (cases "is_consistent c var val a")
    case (Inl e)
    then show ?thesis by (simp add: restored_def bt)
  next
    case (Inr b)
    show ?thesis
    proof (cases b)
      case False
      with Inr Cons show ?thesis by (simp add: bt)
    next
      case True
      show ?thesis
      proof (cases "backtrack f ?a1 c")
        case (Inl e)
        with Inr True show ?thesis
          by (simp add: restored_def inf NQueensCSP_inference_def a1 dict_update_empty bt)
      next
        case (Inr res)
        obtain result a2 where res: "res = (result, a2)" by (cases res)
        from IH [of ?a1] Inr res have r: "restored ?a1 (Inr (result, a2))" by simp
        show ?thesis
        proof (cases "is_true result")
          case t: True
          then obtain x where x: "result = Some x" by (cases result) (auto simp add: is_true_def)
          with r have "x = a2 \<and> length ?a1 \<le> length a2" by (simp add: restored_def)
          then have "restored a (Inr (result, a2))" by (simp add: restored_def x)
          with \<open>is_consistent c var val a = Inr b\<close> True Inr res t show ?thesis
            by (simp add: inf NQueensCSP_inference_def a1 dict_update_empty bt)
        next
          case f: False
          have "a2 = ?a1"
          proof (cases result)
            case None
            with r show ?thesis by (simp add: restored_def)
          next
            case (Some x)
            with f have "x = []" by (simp add: is_true_def)
            with r Some show ?thesis by (auto simp add: restored_def)
          qed
          with \<open>is_consistent c var val a = Inr b\<close> True Inr res f Cons show ?thesis
            by (simp add: inf NQueensCSP_inference_def a1 dict_update_empty del keys_def bt)
        qed
      qed
    qed
  qed
qed

lemma backtrack_restored:
  assumes inf: "inference c = NQueensCSP_inference"
  shows "restored a (backtrack f a c)"
proof (induction f arbitrary: a)
  case 0
  then show ?case by (simp add: restored_def)
next
  case (Suc f)
  show ?case
  proof (cases "is_complete c a")
    case True
    then show ?thesis by (simp add: restored_def bt)
  next
    case False
    show ?thesis
    proof (cases "select c a")
      case None
      with False show ?thesis by (simp add: restored_def order_values_def bt)
    next
      case (Some v)
      then have v: "v \<notin> set (keys a)" by (simp add: select_Some)
      show ?thesis
      proof (cases "domains c v")
        case None
        with False Some show ?thesis by (simp add: restored_def order_values_def bt)
      next
        case d: (Some vals)
        have "restored a (backtrack_for f v vals a c)"
          using inf Suc v by (rule backtrack_for_restored)
        with False Some d show ?thesis by (simp add: order_values_def bt)
      qed
    qed
  qed
qed

subsection \<open>Partial placements\<close>

lemma card_symbols: "0 \<le> N \<Longrightarrow> card (A ` {0..N - 1}) = nat N"
  by (simp add: card_image inj_on_def)

lemma card_keys: "distinct (keys a) \<Longrightarrow> card (set (keys a)) = length a"
  using distinct_card [of "keys a"] by (simp add: keys_def)

lemma partial_length:
  assumes "partial N a" "0 \<le> N"
  shows "int (length a) \<le> N"
proof -
  have "length a = card (set (keys a))"
    using assms(1) by (simp add: partial_def card_keys)
  also have "\<dots> \<le> card (A ` {0..N - 1})"
    using assms(1) by (intro card_mono) (simp_all add: partial_def)
  finally show ?thesis using card_symbols [OF assms(2)] assms(2) by simp
qed

lemma partial_full:
  assumes "partial N a" "0 \<le> N" "int (length a) = N"
  shows "set (keys a) = A ` {0..N - 1}"
proof (rule card_subset_eq)
  show "finite (A ` {0..N - 1})" by simp
  show "set (keys a) \<subseteq> A ` {0..N - 1}" using assms(1) by (simp add: partial_def)
  have "card (set (keys a)) = length a"
    using assms(1) by (simp add: partial_def card_keys)
  then show "card (set (keys a)) = card (A ` {0..N - 1})"
    using assms(2,3) card_symbols [OF assms(2)] by simp
qed

lemma select_NQueens:
  assumes c: "NQueensCSP N = Inr c" and p: "partial N a" and n: "int (length a) \<noteq> N"
  shows "\<exists>k. select c a = Some (A k) \<and> 0 \<le> k \<and> k < N \<and> A k \<notin> set (keys a)"
proof -
  note f = NQueensCSP_fields [OF c]
  have "\<not> A ` {0..N - 1} \<subseteq> set (keys a)"
  proof
    assume "A ` {0..N - 1} \<subseteq> set (keys a)"
    with p have "set (keys a) = A ` {0..N - 1}" by (auto simp add: partial_def)
    then have "card (set (keys a)) = nat N" using card_symbols [OF f(1)] by simp
    moreover have "card (set (keys a)) = length a"
      using p by (simp add: partial_def card_keys)
    ultimately show False using n f(1) by simp
  qed
  then obtain k where k: "0 \<le> k" "k < N" "A k \<notin> set (keys a)" by force
  then have "A k \<in> set (variables c)" by (simp add: f(3))
  with k(3) have "select c a \<noteq> None"
    unfolding select_def by (auto simp add: find_None_iff)
  then obtain v where v: "select c a = Some v" by auto
  from select_Some [OF v] show ?thesis by (auto simp add: v f(3))
qed

lemma partial_extend:
  "partial N a \<Longrightarrow> 0 \<le> k \<Longrightarrow> k < N \<Longrightarrow> A k \<notin> set (keys a) \<Longrightarrow> partial N (a @ [(A k, v)])"
  by (auto simp add: partial_def keys_def)

lemma map_of_distinct: "distinct (keys a) \<Longrightarrow> (map_of a s = Some w) = ((s, w) \<in> set a)"
  by (simp add: keys_def)

lemma placement_extend:
  assumes c: "NQueensCSP N = Inr c" and p: "placement N a"
    and k: "0 \<le> k" "k < N" "A k \<notin> set (keys a)" and v: "0 \<le> v" "v < N"
    and ok: "is_consistent c (A k) v a = Inr True"
  shows "placement N (a @ [(A k, v)])"
proof -
  from p have d: "distinct (keys a)" and sub: "set (keys a) \<subseteq> A ` {0..N - 1}"
    by (simp_all add: placement_def partial_def)
  from ok have safe: "\<And>i w. 0 \<le> i \<Longrightarrow> i < N \<Longrightarrow> i \<noteq> k \<Longrightarrow> (A i, w) \<in> set a \<Longrightarrow> \<not> attacks i w k v"
    by (simp add: is_consistent_NQueens [OF c k(1,2)] map_of_distinct [OF d])
  have rng: "\<And>i w. (A i, w) \<in> set a \<Longrightarrow> 0 \<le> i \<and> i < N"
  proof -
    fix i w assume "(A i, w) \<in> set a"
    then have "A i \<in> set (keys a)" by (force simp add: keys_def)
    with sub show "0 \<le> i \<and> i < N" by auto
  qed
  have "partial N (a @ [(A k, v)])"
    using p k by (simp add: placement_def partial_extend)
  moreover have "\<forall>(s, w) \<in> set (a @ [(A k, v)]). 0 \<le> w \<and> w < N"
    using p v by (auto simp add: placement_def)
  moreover have "\<forall>i x j y. (A i, x) \<in> set (a @ [(A k, v)]) \<and> (A j, y) \<in> set (a @ [(A k, v)]) \<and> i \<noteq> j
       \<longrightarrow> \<not> attacks i x j y"
  proof (intro allI impI)
    fix i x j y
    assume h: "(A i, x) \<in> set (a @ [(A k, v)]) \<and> (A j, y) \<in> set (a @ [(A k, v)]) \<and> i \<noteq> j"
    consider "(A i, x) \<in> set a" "(A j, y) \<in> set a"
      | "(A i, x) \<in> set a" "j = k" "y = v"
      | "i = k" "x = v" "(A j, y) \<in> set a"
      using h by auto
    then show "\<not> attacks i x j y"
    proof cases
      case 1
      with p h show ?thesis by (simp add: placement_def)
    next
      case 2
      with safe [of i x] rng [of i x] h show ?thesis by simp
    next
      case 3
      with safe [of j y] rng [of j y] h show ?thesis by (simp add: attacks_sym [of k v j y])
    qed
  qed
  ultimately show ?thesis by (simp add: placement_def)
qed

lemma backtrack_for_Cons:
  assumes "inference c = NQueensCSP_inference" "var \<notin> set (keys a)"
  shows "backtrack_for f var (val # vals) a c =
     (case is_consistent c var val a of
        Inl e \<Rightarrow> Inl e
      | Inr b \<Rightarrow>
          if b then
            (case backtrack f (a @ [(var, val)]) c of
               Inl e \<Rightarrow> Inl e
             | Inr (result, a2) \<Rightarrow>
                 (case result of
                    None \<Rightarrow> backtrack_for f var vals a c
                  | Some x \<Rightarrow> Inr (Some x, x)))
          else backtrack_for f var vals a c)"
proof -
  let ?a1 = "a @ [(var, val)]"
  have a1: "setitem var val a = ?a1" using assms(2) by (rule setitem_fresh)
  have del: "delitem var ?a1 = Inr a" using assms(2) by (rule delitem_fresh)
  have r: "restored ?a1 (backtrack f ?a1 c)" using assms(1) by (rule backtrack_restored)
  show ?thesis
  proof (cases "backtrack f ?a1 c")
    case (Inl e)
    then show ?thesis
      by (simp add: assms(1) NQueensCSP_inference_def a1 dict_update_empty bt
          split: sum.splits bool.splits)
  next
    case (Inr res)
    obtain result a2 where res: "res = (result, a2)" by (cases res)
    show ?thesis
    proof (cases result)
      case None
      with r Inr res have "a2 = ?a1" by (simp add: restored_def)
      with None Inr res show ?thesis
        by (simp add: assms(1) NQueensCSP_inference_def a1 dict_update_empty del keys_def
            is_true_def bt split: sum.splits bool.splits)
    next
      case (Some x)
      with r Inr res have "x = a2" "x \<noteq> []" by (auto simp add: restored_def)
      with Some Inr res show ?thesis
        by (simp add: assms(1) NQueensCSP_inference_def a1 dict_update_empty
            is_true_def bt split: sum.splits bool.splits)
    qed
  qed
qed

lemma backtrack_Suc_NQueens:
  assumes c: "NQueensCSP N = Inr c" and p: "partial N a" and n: "int (length a) \<noteq> N"
  shows "\<exists>k. 0 \<le> k \<and> k < N \<and> A k \<notin> set (keys a) \<and>
     backtrack (Suc f) a c = backtrack_for f (A k) [0..N - 1] a c"
proof -
  from select_NQueens [OF c p n] obtain k where
    k: "select c a = Some (A k)" "0 \<le> k" "k < N" "A k \<notin> set (keys a)" by blast
  have "backtrack (Suc f) a c = backtrack_for f (A k) [0..N - 1] a c"
    using n k by (simp add: is_complete_def NQueensCSP_fields(2) [OF c] order_values_def
        NQueensCSP_domains [OF c k(2,3)] bt)
  with k show ?thesis by blast
qed

subsection \<open>Soundness, totality and the number of frames\<close>

lemma backtrack_for_sound:
  assumes c: "NQueensCSP N = Inr c"
    and IH: "\<And>a x a'. placement N a \<Longrightarrow> backtrack f a c = Inr (Some x, a')
                \<Longrightarrow> placement N x \<and> int (length x) = N"
    and p: "placement N a" and k: "0 \<le> k" "k < N" "A k \<notin> set (keys a)"
  shows "\<forall>v \<in> set vals. 0 \<le> v \<and> v < N \<Longrightarrow>
     backtrack_for f (A k) vals a c = Inr (Some x, a') \<Longrightarrow>
     placement N x \<and> int (length x) = N"
proof (induction vals)
  case Nil
  then show ?case by simp
next
  case (Cons val vals)
  note eq = backtrack_for_Cons [OF NQueensCSP_fields(4) [OF c] k(3), of f val vals]
  from Cons.prems(1) have val: "0 \<le> val" "val < N" and rest: "\<forall>v \<in> set vals. 0 \<le> v \<and> v < N"
    by simp_all
  show ?case
  proof (cases "is_consistent c (A k) val a = Inr True")
    case True
    have p1: "placement N (a @ [(A k, val)])"
      using c p k val True by (rule placement_extend)
    show ?thesis
    proof (cases "backtrack f (a @ [(A k, val)]) c")
      case (Inl e)
      with Cons.prems(2) True show ?thesis by (simp add: eq)
    next
      case (Inr res)
      obtain result a2 where res: "res = (result, a2)" by (cases res)
      show ?thesis
      proof (cases result)
        case None
        with Cons.prems(2) True Inr res have "backtrack_for f (A k) vals a c = Inr (Some x, a')"
          by (simp add: eq)
        with Cons.IH rest show ?thesis by simp
      next
        case (Some y)
        with Cons.prems(2) True Inr res have "y = x" by (simp add: eq)
        with IH [OF p1] Inr res Some show ?thesis by simp
      qed
    qed
  next
    case False
    with Cons.prems(2) have "backtrack_for f (A k) vals a c = Inr (Some x, a')"
      by (auto simp add: eq split: sum.splits if_splits)
    with Cons.IH rest show ?thesis by simp
  qed
qed

lemma backtrack_sound:
  assumes c: "NQueensCSP N = Inr c"
  shows "placement N a \<Longrightarrow> backtrack f a c = Inr (Some x, a') \<Longrightarrow>
     placement N x \<and> int (length x) = N"
proof (induction f arbitrary: a x a')
  case 0
  then show ?case by simp
next
  case (Suc f)
  show ?case
  proof (cases "int (length a) = N")
    case True
    with Suc.prems show ?thesis
      by (simp add: is_complete_def NQueensCSP_fields(2) [OF c] bt)
  next
    case False
    from Suc.prems(1) have pa: "partial N a" by (simp add: placement_def)
    from backtrack_Suc_NQueens [OF c pa False, of f] obtain k where
      k: "0 \<le> k" "k < N" "A k \<notin> set (keys a)"
        and eq: "backtrack (Suc f) a c = backtrack_for f (A k) [0..N - 1] a c" by blast
    show ?thesis
    proof (rule backtrack_for_sound [OF c _ Suc.prems(1) k])
      show "\<forall>v \<in> set [0..N - 1]. 0 \<le> v \<and> v < N" by simp
      show "backtrack_for f (A k) [0..N - 1] a c = Inr (Some x, a')"
        using Suc.prems(2) eq by simp
    qed (rule Suc.IH)
  qed
qed

lemma backtrack_for_total:
  assumes c: "NQueensCSP N = Inr c"
    and IH: "\<And>a. partial N a \<Longrightarrow> N < int (length a) + int f \<Longrightarrow> \<exists>res. backtrack f a c = Inr res"
    and p: "partial N a" and k: "0 \<le> k" "k < N" "A k \<notin> set (keys a)"
    and n: "N \<le> int (length a) + int f"
  shows "\<exists>res. backtrack_for f (A k) vals a c = Inr res"
proof (induction vals)
  case Nil
  then show ?case by simp
next
  case (Cons val vals)
  note eq = backtrack_for_Cons [OF NQueensCSP_fields(4) [OF c] k(3), of f val vals]
  have "partial N (a @ [(A k, val)])" using p k by (rule partial_extend)
  moreover have "N < int (length (a @ [(A k, val)])) + int f" using n by simp
  ultimately obtain result a2 where "backtrack f (a @ [(A k, val)]) c = Inr (result, a2)"
    using IH by fastforce
  with Cons show ?case
    by (cases result) (auto simp add: eq is_consistent_NQueens [OF c k(1,2)])
qed

lemma backtrack_total:
  assumes c: "NQueensCSP N = Inr c"
  shows "partial N a \<Longrightarrow> N < int (length a) + int f \<Longrightarrow> \<exists>res. backtrack f a c = Inr res"
proof (induction f arbitrary: a)
  case 0
  with partial_length [OF 0(1) NQueensCSP_fields(1) [OF c]] show ?case by simp
next
  case (Suc f)
  show ?case
  proof (cases "int (length a) = N")
    case True
    then show ?thesis by (simp add: is_complete_def NQueensCSP_fields(2) [OF c] bt)
  next
    case False
    from backtrack_Suc_NQueens [OF c Suc.prems(1) False, of f] obtain k where
      k: "0 \<le> k" "k < N" "A k \<notin> set (keys a)"
        and eq: "backtrack (Suc f) a c = backtrack_for f (A k) [0..N - 1] a c" by blast
    have "N \<le> int (length a) + int f" using Suc.prems(2) by simp
    from backtrack_for_total [OF c Suc.IH Suc.prems(1) k this] show ?thesis
      by (simp add: eq)
  qed
qed

lemma backtrack_for_mono:
  assumes IH: "\<And>a res. backtrack f a c = Inr res \<Longrightarrow> backtrack (Suc f) a c = Inr res"
  shows "backtrack_for f var vals a c = Inr res \<Longrightarrow> backtrack_for (Suc f) var vals a c = Inr res"
proof (induction vals arbitrary: a)
  case Nil
  then show ?case by simp
next
  case (Cons val vals)
  show ?case
  proof (cases "is_consistent c var val a")
    case (Inl e)
    with Cons.prems show ?thesis by (simp add: bt)
  next
    case b: (Inr b)
    show ?thesis
    proof (cases b)
      case False
      with b Cons show ?thesis by (simp add: bt)
    next
      case True
      show ?thesis
      proof (cases "inference c var val")
        case None
        with b True Cons.prems show ?thesis by (simp add: bt split: sum.splits)
      next
        case (Some inferences)
        show ?thesis
        proof (cases "backtrack f (dict_update (setitem var val a) inferences) c")
          case (Inl e)
          with b True Some Cons.prems show ?thesis by (simp add: bt)
        next
          case (Inr r)
          note up = IH [OF Inr]
          obtain result a2 where r: "r = (result, a2)" by (cases r)
          from Cons.prems Cons.IH show ?thesis
            by (auto simp add: backtrack_for.simps(2) b True Some Inr up r split: sum.splits if_splits)
        qed
      qed
    qed
  qed
qed

lemma backtrack_mono_Suc:
  "backtrack f a c = Inr res \<Longrightarrow> backtrack (Suc f) a c = Inr res"
proof (induction f arbitrary: a res)
  case 0
  then show ?case by simp
next
  case (Suc f)
  from Suc.prems show ?case
    by (auto simp add: backtrack.simps(2) [of "Suc f"] backtrack.simps(2) [of f] Let_def
        split: if_splits sum.splits option.splits
        intro: backtrack_for_mono [OF Suc.IH])
qed

lemma backtrack_mono:
  assumes "backtrack f a c = Inr res" "f \<le> f'"
  shows "backtrack f' a c = Inr res"
  using assms(2,1) by (induction f' rule: dec_induct) (simp_all add: backtrack_mono_Suc)

section \<open>The constraints of the model\<close>

lemma free_symbols_pair: "con \<in> pair_constraints i j \<Longrightarrow> free_symbols con = {A i, A j}"
  by (auto simp add: pair_constraints_def diffRow_def diffDiag_def)

lemma index_entry_NQueens:
  assumes c: "NQueensCSP N = Inr c" and k: "0 \<le> k" "k < N"
  shows "constraints_index c (A k) =
     Some (\<Union>p \<in> {p \<in> all_pairs N. k = fst p \<or> k = snd p}. pair_constraints (fst p) (snd p))"
  using k by (simp add: NQueensCSP_fields(5) [OF c] index_of_def)

lemma index_dom_NQueens:
  assumes c: "NQueensCSP N = Inr c" and s: "constraints_index c v = Some s"
  shows "\<exists>k. v = A k \<and> 0 \<le> k \<and> k < N"
proof -
  obtain k where v: "v = A k" by (cases v)
  with s show ?thesis
    by (cases "0 \<le> k \<and> k < N") (simp_all add: NQueensCSP_fields(5) [OF c] index_of_def)
qed

lemma constraints_NQueens:
  assumes c: "NQueensCSP N = Inr c"
  shows "constraints c = (\<Union>p \<in> all_pairs N. pair_constraints (fst p) (snd p))"
proof
  show "constraints c \<subseteq> (\<Union>p \<in> all_pairs N. pair_constraints (fst p) (snd p))"
  proof
    fix con assume "con \<in> constraints c"
    then obtain v s where s: "constraints_index c v = Some s" and con: "con \<in> s"
      by (auto simp add: constraints_def ran_def)
    from index_dom_NQueens [OF c s] obtain k where k: "v = A k" "0 \<le> k" "k < N" by blast
    from s con show "con \<in> (\<Union>p \<in> all_pairs N. pair_constraints (fst p) (snd p))"
      unfolding k(1) index_entry_NQueens [OF c k(2,3)] by auto
  qed
next
  show "(\<Union>p \<in> all_pairs N. pair_constraints (fst p) (snd p)) \<subseteq> constraints c"
  proof
    fix con assume "con \<in> (\<Union>p \<in> all_pairs N. pair_constraints (fst p) (snd p))"
    then obtain i j where p: "(i, j) \<in> all_pairs N" and con: "con \<in> pair_constraints i j"
      by auto
    from p have i: "0 \<le> i" "i < N" by (auto simp add: all_pairs_def)
    let ?s = "\<Union>p \<in> {p \<in> all_pairs N. i = fst p \<or> i = snd p}. pair_constraints (fst p) (snd p)"
    from p con have "con \<in> ?s" by force
    moreover have "?s \<in> ran (constraints_index c)"
      using index_entry_NQueens [OF c i] by (rule ranI)
    ultimately show "con \<in> constraints c"
      unfolding constraints_def by (rule UnionI [rotated])
  qed
qed

lemma index_entry_references:
  assumes c: "NQueensCSP N = Inr c" and k: "0 \<le> k" "k < N"
  shows "constraints_index c (A k) = Some {con \<in> constraints c. A k \<in> free_symbols con}"
proof -
  have "(\<Union>p \<in> {p \<in> all_pairs N. k = fst p \<or> k = snd p}. pair_constraints (fst p) (snd p))
      = {con \<in> constraints c. A k \<in> free_symbols con}"
    unfolding constraints_NQueens [OF c]
    by (auto simp add: free_symbols_pair)
  with index_entry_NQueens [OF c k] show ?thesis by simp
qed

lemma evaluate_unbound:
  "s \<in> free_symbols con \<Longrightarrow> \<tau> s = None \<Longrightarrow> evaluate (subs con \<tau>) = None"
proof (cases con)
  case (DiffRow x0 x1)
  assume "s \<in> free_symbols con" "\<tau> s = None"
  with DiffRow show ?thesis
    by (cases x0; cases x1) (auto split: option.splits)
next
  case (DiffDiag x0 x1 y)
  assume "s \<in> free_symbols con" "\<tau> s = None"
  with DiffDiag show ?thesis
    by (cases x0; cases x1) (auto split: option.splits)
qed

text \<open>
  Claim C2. In the N-queens model, for a variable of the model, any candidate value and
  any assignment, \<^verbatim>\<open>is_consistent\<close> returns true exactly when no constraint that
  references the variable evaluates to false once the value is substituted for the variable
  and the assignment's bindings for the other variables. A constraint whose other variable
  is unbound is indeterminate, hence passes; and the answer false always comes from a
  constraint all of whose variables are bound.
\<close>

theorem is_consistent_iff:
  assumes c: "NQueensCSP N = Inr c" and var: "var \<in> set (variables c)"
  shows "is_consistent c var val a =
       Inr (\<forall>con \<in> constraints c. var \<in> free_symbols con \<longrightarrow>
              evaluate (subs con ((map_of a)(var \<mapsto> val))) \<noteq> Some False)
     \<and> (\<forall>con \<in> constraints c. \<forall>other \<in> free_symbols con.
          other \<noteq> var \<and> map_of a other = None \<longrightarrow>
            evaluate (subs con ((map_of a)(var \<mapsto> val))) = None)
     \<and> (is_consistent c var val a = Inr False \<longrightarrow>
          (\<exists>con \<in> constraints c. var \<in> free_symbols con
              \<and> free_symbols con \<subseteq> insert var (set (keys a))
              \<and> evaluate (subs con ((map_of a)(var \<mapsto> val))) = Some False))"
proof -
  let ?\<tau> = "(map_of a)(var \<mapsto> val)"
  from var obtain k where k: "var = A k" "0 \<le> k" "k < N"
    by (auto simp add: NQueensCSP_fields(3) [OF c])
  have 1: "is_consistent c var val a =
       Inr (\<forall>con \<in> constraints c. var \<in> free_symbols con \<longrightarrow> evaluate (subs con ?\<tau>) \<noteq> Some False)"
    by (auto simp add: is_consistent_def k(1) index_entry_references [OF c k(2,3)] subs_twice truthy_def)
  have 2: "\<forall>con \<in> constraints c. \<forall>other \<in> free_symbols con.
          other \<noteq> var \<and> map_of a other = None \<longrightarrow> evaluate (subs con ?\<tau>) = None"
    by (auto intro: evaluate_unbound)
  have 3: "is_consistent c var val a = Inr False \<longrightarrow>
          (\<exists>con \<in> constraints c. var \<in> free_symbols con
              \<and> free_symbols con \<subseteq> insert var (set (keys a))
              \<and> evaluate (subs con ?\<tau>) = Some False)"
  proof
    assume "is_consistent c var val a = Inr False"
    with 1 obtain con where con: "con \<in> constraints c" "var \<in> free_symbols con"
      "evaluate (subs con ?\<tau>) = Some False" by auto
    have "free_symbols con \<subseteq> insert var (set (keys a))"
    proof
      fix s assume s: "s \<in> free_symbols con"
      show "s \<in> insert var (set (keys a))"
      proof (rule ccontr)
        assume n: "s \<notin> insert var (set (keys a))"
        then have "?\<tau> s = None" by (auto simp add: keys_def map_of_eq_None_iff)
        with evaluate_unbound [of s con ?\<tau>] s con(3) show False by simp
      qed
    qed
    with con show "\<exists>con \<in> constraints c. var \<in> free_symbols con
              \<and> free_symbols con \<subseteq> insert var (set (keys a))
              \<and> evaluate (subs con ?\<tau>) = Some False" by blast
  qed
  from 1 2 3 show ?thesis by blast
qed

theorem is_consistent_iff_witness:
  "NQueensCSP 3 = Inr (projr (NQueensCSP 3))
   \<and> A 1 \<in> set (variables (projr (NQueensCSP 3)))
   \<and> is_consistent (projr (NQueensCSP 3)) (A 1) 1 [(A 0, 0)] = Inr False
   \<and> (\<exists>con \<in> constraints (projr (NQueensCSP 3)). A 1 \<in> free_symbols con
        \<and> free_symbols con \<subseteq> insert (A 1) (set (keys [(A 0, 0)]))
        \<and> evaluate (subs con ((map_of [(A 0, 0)])(A 1 \<mapsto> 1))) = Some False)
   \<and> is_consistent (projr (NQueensCSP 3)) (A 1) 1 [] = Inr True"
proof -
  have c: "NQueensCSP 3 = Inr (projr (NQueensCSP 3))"
    using NQueensCSP_eq [of 3] by simp
  have v: "A 1 \<in> set (variables (projr (NQueensCSP 3)))"
    by code_simp
  have f: "is_consistent (projr (NQueensCSP 3)) (A 1) 1 [(A 0, 0)] = Inr False"
    by code_simp
  have t: "is_consistent (projr (NQueensCSP 3)) (A 1) 1 [] = Inr True"
    by code_simp
  from is_consistent_iff [OF c v, of 1 "[(A 0, 0)]"] f
  have "\<exists>con \<in> constraints (projr (NQueensCSP 3)). A 1 \<in> free_symbols con
        \<and> free_symbols con \<subseteq> insert (A 1) (set (keys [(A 0, 0)]))
        \<and> evaluate (subs con ((map_of [(A 0, 0)])(A 1 \<mapsto> 1))) = Some False"
    by blast
  with c v f t show ?thesis by blast
qed

section \<open>Solutions of the search\<close>

lemma backtracking_search_Inr:
  "backtracking_search frames c = Inr r \<Longrightarrow> \<exists>a'. backtrack frames [] c = Inr (r, a')"
  by (auto simp add: backtracking_search_def split: sum.splits)

lemma backtracking_search_mono:
  assumes "backtracking_search f c = Inr r" "f \<le> f'"
  shows "backtracking_search f' c = Inr r"
proof -
  from backtracking_search_Inr [OF assms(1)] obtain a' where "backtrack f [] c = Inr (r, a')" ..
  from backtrack_mono [OF this assms(2)] show ?thesis by (simp add: backtracking_search_def)
qed

lemma placement_empty: "placement N []"
  by (simp add: placement_def partial_def keys_def)

lemma variables_NQueens:
  assumes c: "NQueensCSP N = Inr c"
  shows "set (variables c) = A ` {0..N - 1}" and "int (length (variables c)) = N"
  using NQueensCSP_fields(1) [OF c] by (simp_all add: NQueensCSP_fields(3) [OF c])

lemma backtracking_search_sound:
  assumes c: "NQueensCSP N = Inr c" and r: "backtracking_search frames c = Inr (Some a)"
  shows "placement N a" and "set (keys a) = set (variables c)"
proof -
  from backtracking_search_Inr [OF r] obtain a' where "backtrack frames [] c = Inr (Some a, a')" ..
  from backtrack_sound [OF c placement_empty this]
  have p: "placement N a" and l: "int (length a) = N" by simp_all
  show "placement N a" by (rule p)
  from p have "partial N a" by (simp add: placement_def)
  from partial_full [OF this NQueensCSP_fields(1) [OF c] l]
  show "set (keys a) = set (variables c)" by (simp add: variables_NQueens(1) [OF c])
qed

text \<open>
  Claim C1. For \<open>N \<ge> 1\<close>, an assignment returned by \<^verbatim>\<open>backtracking_search\<close> on
  \<^verbatim>\<open>NQueensCSP(N)\<close> binds each of the \<open>N\<close> variables once, to a row in \<open>[0, N)\<close>, and any two
  distinct columns hold different rows that are not on a common diagonal. It holds whatever
  the number of frames allowed.
\<close>

theorem backtracking_search_solution:
  assumes N: "1 \<le> N" and c: "NQueensCSP N = Inr c"
    and r: "backtracking_search frames c = Inr (Some a)"
  shows "distinct (keys a) \<and> set (keys a) = set (variables c) \<and> int (length (variables c)) = N
     \<and> (\<forall>(s, w) \<in> set a. 0 \<le> w \<and> w < N)
     \<and> (\<forall>i j x y. i \<noteq> j \<and> map_of a (A i) = Some x \<and> map_of a (A j) = Some y
            \<longrightarrow> x \<noteq> y \<and> \<bar>x - y\<bar> \<noteq> \<bar>i - j\<bar>)"
proof -
  note s = backtracking_search_sound [OF c r]
  from s(1) have d: "distinct (keys a)" and rows: "\<forall>(s, w) \<in> set a. 0 \<le> w \<and> w < N"
    and safe: "\<And>i x j y. (A i, x) \<in> set a \<Longrightarrow> (A j, y) \<in> set a \<Longrightarrow> i \<noteq> j \<Longrightarrow> \<not> attacks i x j y"
    by (simp_all add: placement_def partial_def)
  have "\<forall>i j x y. i \<noteq> j \<and> map_of a (A i) = Some x \<and> map_of a (A j) = Some y
            \<longrightarrow> x \<noteq> y \<and> \<bar>x - y\<bar> \<noteq> \<bar>i - j\<bar>"
  proof (intro allI impI)
    fix i j x y
    assume h: "i \<noteq> j \<and> map_of a (A i) = Some x \<and> map_of a (A j) = Some y"
    then have "(A i, x) \<in> set a" "(A j, y) \<in> set a" by (auto dest: map_of_SomeD)
    from safe [OF this] h show "x \<noteq> y \<and> \<bar>x - y\<bar> \<noteq> \<bar>i - j\<bar>" by (simp add: attacks_def)
  qed
  with d s(2) rows variables_NQueens(2) [OF c] show ?thesis by blast
qed

theorem backtracking_search_solution_witness:
  "(1::int) \<le> 4 \<and> NQueensCSP 4 = Inr (projr (NQueensCSP 4))
   \<and> backtracking_search 5 (projr (NQueensCSP 4)) = Inr (Some [(A 0, 1), (A 1, 3), (A 2, 0), (A 3, 2)])
   \<and> set (keys [(A 0, 1), (A 1, 3), (A 2, 0), (A 3, 2)]) = set (variables (projr (NQueensCSP 4)))
   \<and> int (length (variables (projr (NQueensCSP 4)))) = 4"
proof -
  have c: "NQueensCSP 4 = Inr (projr (NQueensCSP 4))"
    using NQueensCSP_eq [of 4] by simp
  have r: "backtracking_search 5 (projr (NQueensCSP 4)) = Inr (Some [(A 0, 1), (A 1, 3), (A 2, 0), (A 3, 2)])"
    by code_simp
  have n: "(1::int) \<le> 4" by simp
  from backtracking_search_solution [OF n c r]
  have k: "set (keys [(A 0, 1), (A 1, 3), (A 2, 0), (A 3, 2)]) = set (variables (projr (NQueensCSP 4)))"
    and l: "int (length (variables (projr (NQueensCSP 4)))) = 4" by blast+
  show ?thesis by (intro conjI n c r k l)
qed

section \<open>Undoing a failed branch\<close>





subsection \<open>Hooks that propose unbound variables\<close>









subsection \<open>N-queens models with a hook that proposes consistent bindings\<close>









section \<open>Completeness of an assignment\<close>

text \<open>
  Claim C6, as amended. \<^verbatim>\<open>is_complete\<close> compares the number of bindings with the size of
  the model. For a dict whose keys are variables of the model this is the same as binding
  every variable: the set of bound variables is the set of variables.
\<close>

theorem is_complete_iff:
  assumes c: "NQueensCSP N = Inr c" and d: "distinct (keys a)"
    and s: "set (keys a) \<subseteq> set (variables c)"
  shows "is_complete c a = (set (keys a) = set (variables c))"
proof -
  note N = NQueensCSP_fields(1) [OF c]
  from d s have p: "partial N a" by (simp add: partial_def variables_NQueens(1) [OF c])
  show ?thesis
  proof
    assume "is_complete c a"
    then have "int (length a) = N" by (simp add: is_complete_def NQueensCSP_fields(2) [OF c])
    from partial_full [OF p N this] show "set (keys a) = set (variables c)"
      by (simp add: variables_NQueens(1) [OF c])
  next
    assume "set (keys a) = set (variables c)"
    then have "card (set (keys a)) = nat N"
      by (simp add: variables_NQueens(1) [OF c] card_symbols [OF N])
    with card_keys [OF d] N show "is_complete c a"
      by (simp add: is_complete_def NQueensCSP_fields(2) [OF c])
  qed
qed

theorem is_complete_iff_witness:
  "NQueensCSP 2 = Inr (projr (NQueensCSP 2))
   \<and> distinct (keys [(A 1, 0), (A 0, 0)])
   \<and> set (keys [(A 1, 0), (A 0, 0)]) \<subseteq> set (variables (projr (NQueensCSP 2)))
   \<and> is_complete (projr (NQueensCSP 2)) [(A 1, 0), (A 0, 0)]
   \<and> set (keys [(A 1, 0), (A 0, 0)]) = set (variables (projr (NQueensCSP 2)))
   \<and> distinct (keys [(A 1, 0)])
   \<and> set (keys [(A 1, 0)]) \<subseteq> set (variables (projr (NQueensCSP 2)))
   \<and> \<not> is_complete (projr (NQueensCSP 2)) [(A 1, 0)]
   \<and> set (keys [(A 1, 0)]) \<noteq> set (variables (projr (NQueensCSP 2)))"
proof -
  have c: "NQueensCSP 2 = Inr (projr (NQueensCSP 2))"
    using NQueensCSP_eq [of 2] by simp
  have d: "distinct (keys [(A 1, 0), (A 0, 0)])" "distinct (keys [(A 1, 0)])"
    by (simp_all add: keys_def)
  have s: "set (keys [(A 1, 0), (A 0, 0)]) \<subseteq> set (variables (projr (NQueensCSP 2)))"
    "set (keys [(A 1, 0)]) \<subseteq> set (variables (projr (NQueensCSP 2)))"
    by code_simp+
  have k: "is_complete (projr (NQueensCSP 2)) [(A 1, 0), (A 0, 0)]"
    "\<not> is_complete (projr (NQueensCSP 2)) [(A 1, 0)]"
    by code_simp+
  from is_complete_iff [OF c d(1) s(1)] k(1)
  have 1: "set (keys [(A 1, 0), (A 0, 0)]) = set (variables (projr (NQueensCSP 2)))" by simp
  from is_complete_iff [OF c d(2) s(2)] k(2)
  have 2: "set (keys [(A 1, 0)]) \<noteq> set (variables (projr (NQueensCSP 2)))" by simp
  show ?thesis by (intro conjI c d s k 1 2)
qed

text \<open>
  The claim as stated, for every dict, fails: in the 1-queens model the dict that binds the
  symbol \<open>A 1\<close>, which is not a variable of the model, has one binding and counts as
  complete, while the variable \<open>A 0\<close> is unbound.
\<close>

theorem is_complete_foreign_key:
  "NQueensCSP 1 = Inr (projr (NQueensCSP 1))
   \<and> distinct (keys [(A 1, 0)])
   \<and> is_complete (projr (NQueensCSP 1)) [(A 1, 0)]
   \<and> set (keys [(A 1, 0)]) \<noteq> set (variables (projr (NQueensCSP 1)))"
proof -
  have c: "NQueensCSP 1 = Inr (projr (NQueensCSP 1))"
    using NQueensCSP_eq [of 1] by simp
  have d: "distinct (keys [(A 1, 0)])" by (simp add: keys_def)
  have k: "is_complete (projr (NQueensCSP 1)) [(A 1, 0)]" by code_simp
  have n: "set (keys [(A 1, 0)]) \<noteq> set (variables (projr (NQueensCSP 1)))"
    by (simp add: variables_NQueens(1) [OF c] keys_def)
  show ?thesis by (intro conjI c d k n)
qed

section \<open>The constraints the constructor generates\<close>

text \<open>
  Claim C7. The constructor creates, for every pair of columns \<open>i < j\<close>, the row constraint
  and the diagonal constraint with offset \<open>j - i\<close>, and no other constraint on that pair;
  both are in the index entries of both variables; and every constraint in the entry of a
  variable references that variable.
\<close>

theorem NQueensCSP_constraints:
  assumes c: "NQueensCSP N = Inr c"
  shows "(\<forall>i j. 0 \<le> i \<and> i < j \<and> j < N \<longrightarrow>
            {con \<in> constraints c. free_symbols con = {A i, A j}}
              = {diffRow (A i) (A j), diffDiag (A i) (A j) (j - i)}
          \<and> diffRow (A i) (A j) \<noteq> diffDiag (A i) (A j) (j - i)
          \<and> (\<exists>si sj. constraints_index c (A i) = Some si \<and> constraints_index c (A j) = Some sj
                \<and> {diffRow (A i) (A j), diffDiag (A i) (A j) (j - i)} \<subseteq> si \<inter> sj))
     \<and> (\<forall>v s con. constraints_index c v = Some s \<and> con \<in> s \<longrightarrow> v \<in> free_symbols con)"
proof (intro conjI allI impI)
  fix i j assume ij: "0 \<le> i \<and> i < j \<and> j < N"
  then have p: "(i, j) \<in> all_pairs N" by (simp add: all_pairs_def)
  show "{con \<in> constraints c. free_symbols con = {A i, A j}}
              = {diffRow (A i) (A j), diffDiag (A i) (A j) (j - i)}"
  proof -
    have "{con \<in> constraints c. free_symbols con = {A i, A j}} = pair_constraints i j"
    proof
      show "{con \<in> constraints c. free_symbols con = {A i, A j}} \<subseteq> pair_constraints i j"
      proof
        fix con assume "con \<in> {con \<in> constraints c. free_symbols con = {A i, A j}}"
        then obtain i' j' where q: "(i', j') \<in> all_pairs N" "con \<in> pair_constraints i' j'"
          and f: "free_symbols con = {A i, A j}"
          by (auto simp add: constraints_NQueens [OF c])
        from free_symbols_pair [OF q(2)] f have "{A i', A j'} = {A i, A j}" by simp
        moreover from q(1) have "i' < j'" by (simp add: all_pairs_def)
        ultimately have "i' = i \<and> j' = j" using ij by (auto simp add: doubleton_eq_iff)
        with q(2) show "con \<in> pair_constraints i j" by simp
      qed
      show "pair_constraints i j \<subseteq> {con \<in> constraints c. free_symbols con = {A i, A j}}"
        using p by (auto simp add: constraints_NQueens [OF c] free_symbols_pair
            intro!: bexI [of _ "(i, j)"])
    qed
    then show ?thesis by (simp add: pair_constraints_def)
  qed
  show "diffRow (A i) (A j) \<noteq> diffDiag (A i) (A j) (j - i)"
    by (simp add: diffRow_def diffDiag_def)
  from ij have i: "0 \<le> i" "i < N" and j: "0 \<le> j" "j < N" by simp_all
  have "pair_constraints i j \<subseteq>
      (\<Union>p \<in> {p \<in> all_pairs N. i = fst p \<or> i = snd p}. pair_constraints (fst p) (snd p))"
    "pair_constraints i j \<subseteq>
      (\<Union>p \<in> {p \<in> all_pairs N. j = fst p \<or> j = snd p}. pair_constraints (fst p) (snd p))"
    using p by force+
  with index_entry_NQueens [OF c i] index_entry_NQueens [OF c j]
  show "\<exists>si sj. constraints_index c (A i) = Some si \<and> constraints_index c (A j) = Some sj
                \<and> {diffRow (A i) (A j), diffDiag (A i) (A j) (j - i)} \<subseteq> si \<inter> sj"
    by (simp add: pair_constraints_def)
next
  fix v s con assume h: "constraints_index c v = Some s \<and> con \<in> s"
  from index_dom_NQueens [OF c, of v s] h obtain k where k: "v = A k" "0 \<le> k" "k < N" by blast
  from h show "v \<in> free_symbols con"
    unfolding k(1) index_entry_NQueens [OF c k(2,3)] by (auto dest: free_symbols_pair)
qed

theorem NQueensCSP_constraints_witness:
  "NQueensCSP 3 = Inr (projr (NQueensCSP 3))
   \<and> {con \<in> constraints (projr (NQueensCSP 3)). free_symbols con = {A 0, A 2}}
        = {diffRow (A 0) (A 2), diffDiag (A 0) (A 2) 2}
   \<and> (\<exists>si sj. constraints_index (projr (NQueensCSP 3)) (A 0) = Some si
         \<and> constraints_index (projr (NQueensCSP 3)) (A 2) = Some sj
         \<and> {diffRow (A 0) (A 2), diffDiag (A 0) (A 2) 2} \<subseteq> si \<inter> sj)"
proof -
  have c: "NQueensCSP 3 = Inr (projr (NQueensCSP 3))"
    using NQueensCSP_eq [of 3] by simp
  have "(0::int) \<le> 0 \<and> (0::int) < 2 \<and> (2::int) < 3" by simp
  from NQueensCSP_constraints [OF c, THEN conjunct1, rule_format, OF this]
  have 1: "{con \<in> constraints (projr (NQueensCSP 3)). free_symbols con = {A 0, A 2}}
        = {diffRow (A 0) (A 2), diffDiag (A 0) (A 2) 2}"
    and 2: "\<exists>si sj. constraints_index (projr (NQueensCSP 3)) (A 0) = Some si
         \<and> constraints_index (projr (NQueensCSP 3)) (A 2) = Some sj
         \<and> {diffRow (A 0) (A 2), diffDiag (A 0) (A 2) 2} \<subseteq> si \<inter> sj"
    by simp_all
  show ?thesis by (intro conjI c 1 2)
qed

section \<open>Small boards\<close>

text \<open>
  Claim C8. With more frames than variables, the search on the 2-queens and the 3-queens
  model returns \<^verbatim>\<open>None\<close>, and on the 1-queens model the dict that binds \<open>A 0\<close> to row 0.
\<close>

theorem backtracking_search_small:
  assumes c: "NQueensCSP N = Inr c" and f: "N < int frames"
  shows "(N = 2 \<or> N = 3 \<longrightarrow> backtracking_search frames c = Inr None)
     \<and> (N = 1 \<longrightarrow> backtracking_search frames c = Inr (Some [(A 0, 0)]))"
proof -
  from c have p: "c = projr (NQueensCSP N)" by simp
  have 1: "backtracking_search 2 (projr (NQueensCSP 1)) = Inr (Some [(A 0, 0)])" by code_simp
  have 2: "backtracking_search 3 (projr (NQueensCSP 2)) = Inr None" by code_simp
  have 3: "backtracking_search 4 (projr (NQueensCSP 3)) = Inr None" by code_simp
  have "N = 1 \<longrightarrow> backtracking_search frames c = Inr (Some [(A 0, 0)])"
    using f by (auto simp add: p intro: backtracking_search_mono [OF 1])
  moreover have "N = 2 \<longrightarrow> backtracking_search frames c = Inr None"
    using f by (auto simp add: p intro: backtracking_search_mono [OF 2])
  moreover have "N = 3 \<longrightarrow> backtracking_search frames c = Inr None"
    using f by (auto simp add: p intro: backtracking_search_mono [OF 3])
  ultimately show ?thesis by blast
qed

theorem backtracking_search_small_witness:
  "NQueensCSP 1 = Inr (projr (NQueensCSP 1)) \<and> (1::int) < int 2
   \<and> backtracking_search 2 (projr (NQueensCSP 1)) = Inr (Some [(A 0, 0)])
   \<and> NQueensCSP 2 = Inr (projr (NQueensCSP 2)) \<and> (2::int) < int 1000
   \<and> backtracking_search 1000 (projr (NQueensCSP 2)) = Inr None
   \<and> NQueensCSP 3 = Inr (projr (NQueensCSP 3)) \<and> (3::int) < int 1000
   \<and> backtracking_search 1000 (projr (NQueensCSP 3)) = Inr None"
proof -
  have c1: "NQueensCSP 1 = Inr (projr (NQueensCSP 1))" using NQueensCSP_eq [of 1] by simp
  have c2: "NQueensCSP 2 = Inr (projr (NQueensCSP 2))" using NQueensCSP_eq [of 2] by simp
  have c3: "NQueensCSP 3 = Inr (projr (NQueensCSP 3))" using NQueensCSP_eq [of 3] by simp
  have f1: "(1::int) < int 2" and f2: "(2::int) < int 1000" and f3: "(3::int) < int 1000"
    by simp_all
  from backtracking_search_small [OF c1 f1]
  have r1: "backtracking_search 2 (projr (NQueensCSP 1)) = Inr (Some [(A 0, 0)])" by simp
  from backtracking_search_small [OF c2 f2]
  have r2: "backtracking_search 1000 (projr (NQueensCSP 2)) = Inr None" by simp
  from backtracking_search_small [OF c3 f3]
  have r3: "backtracking_search 1000 (projr (NQueensCSP 3)) = Inr None" by simp
  show ?thesis by (intro conjI c1 c2 c3 f1 f2 f3 r1 r2 r3)
qed

section \<open>Termination and the depth of the recursion\<close>

text \<open>
  Claim C9. For \<open>N \<ge> 1\<close> the search on \<^verbatim>\<open>NQueensCSP(N)\<close> returns, without any exception, as
  soon as more frames are allowed than there are variables, and \<open>N + 1\<close> frames give the
  same result as any larger number: the recursion is never deeper than \<open>N\<close> calls below the
  first. More precisely a call on a dict that binds \<open>m\<close> variables of the model returns
  within \<open>N - m + 1\<close> frames, a call on a dict that binds all of them returns it at once,
  and the loop calls \<^verbatim>\<open>backtrack\<close> only on the dict extended by the selected variable.
\<close>

theorem backtracking_search_terminates:
  assumes N: "1 \<le> N" and c: "NQueensCSP N = Inr c"
  shows "(\<forall>frames. N < int frames \<longrightarrow>
            (\<exists>r. backtracking_search frames c = Inr r
                \<and> backtracking_search (nat N + 1) c = Inr r))
     \<and> (\<forall>frames a. partial N a \<and> N < int (length a) + int frames \<longrightarrow>
            (\<exists>res. backtrack frames a c = Inr res))
     \<and> (\<forall>frames a. partial N a \<and> int (length a) = N \<longrightarrow>
            backtrack (Suc frames) a c = Inr (Some a, a))
     \<and> (\<forall>frames a. partial N a \<and> int (length a) < N \<longrightarrow>
            (\<exists>var. var \<in> set (variables c) \<and> var \<notin> set (keys a)
               \<and> backtrack (Suc frames) a c = backtrack_for frames var [0..N - 1] a c
               \<and> (\<forall>val vals.
                    backtrack_for frames var (val # vals) a c =
                      (case is_consistent c var val a of
                         Inl e \<Rightarrow> Inl e
                       | Inr b \<Rightarrow>
                           if b then
                             (case backtrack frames (a @ [(var, val)]) c of
                                Inl e \<Rightarrow> Inl e
                              | Inr (result, a2) \<Rightarrow>
                                  (case result of
                                     None \<Rightarrow> backtrack_for frames var vals a c
                                   | Some x \<Rightarrow> Inr (Some x, x)))
                           else backtrack_for frames var vals a c))))"
proof (intro conjI allI impI)
  fix frames :: nat assume f: "N < int frames"
  have e: "partial N []" by (simp add: partial_def keys_def)
  have "N < int (length ([] :: assignment)) + int (nat N + 1)" using N by simp
  from backtrack_total [OF c e this] obtain r a' where
    r: "backtrack (nat N + 1) [] c = Inr (r, a')" by auto
  have "nat N + 1 \<le> frames" using f N by simp
  from backtrack_mono [OF r this] r
  show "\<exists>r. backtracking_search frames c = Inr r \<and> backtracking_search (nat N + 1) c = Inr r"
    by (simp add: backtracking_search_def)
next
  fix frames a assume "partial N a \<and> N < int (length a) + int frames"
  then show "\<exists>res. backtrack frames a c = Inr res"
    using backtrack_total [OF c, of a frames] by simp
next
  fix frames a assume "partial N a \<and> int (length a) = N"
  then show "backtrack (Suc frames) a c = Inr (Some a, a)"
    by (simp add: backtrack.simps(2) is_complete_def NQueensCSP_fields(2) [OF c])
next
  fix frames a assume h: "partial N a \<and> int (length a) < N"
  then have p: "partial N a" and n: "int (length a) \<noteq> N" by simp_all
  from backtrack_Suc_NQueens [OF c p n, of frames] obtain k where
    k: "0 \<le> k" "k < N" "A k \<notin> set (keys a)"
      and eq: "backtrack (Suc frames) a c = backtrack_for frames (A k) [0..N - 1] a c" by blast
  have "A k \<in> set (variables c)" using k by (simp add: variables_NQueens(1) [OF c])
  with k(3) eq backtrack_for_Cons [OF NQueensCSP_fields(4) [OF c] k(3), of frames]
  show "\<exists>var. var \<in> set (variables c) \<and> var \<notin> set (keys a)
               \<and> backtrack (Suc frames) a c = backtrack_for frames var [0..N - 1] a c
               \<and> (\<forall>val vals.
                    backtrack_for frames var (val # vals) a c =
                      (case is_consistent c var val a of
                         Inl e \<Rightarrow> Inl e
                       | Inr b \<Rightarrow>
                           if b then
                             (case backtrack frames (a @ [(var, val)]) c of
                                Inl e \<Rightarrow> Inl e
                              | Inr (result, a2) \<Rightarrow>
                                  (case result of
                                     None \<Rightarrow> backtrack_for frames var vals a c
                                   | Some x \<Rightarrow> Inr (Some x, x)))
                           else backtrack_for frames var vals a c))"
    by blast
qed

theorem backtracking_search_terminates_witness:
  "(1::int) \<le> 8 \<and> NQueensCSP 8 = Inr (projr (NQueensCSP 8)) \<and> (8::int) < int 1000
   \<and> (\<exists>r. backtracking_search 1000 (projr (NQueensCSP 8)) = Inr r
         \<and> backtracking_search (nat 8 + 1) (projr (NQueensCSP 8)) = Inr r)
   \<and> partial 8 [(A 3, 1)] \<and> (8::int) < int (length [(A 3, 1 :: int)]) + int 8
   \<and> (\<exists>res. backtrack 8 [(A 3, 1)] (projr (NQueensCSP 8)) = Inr res)"
proof -
  have n: "(1::int) \<le> 8" by simp
  have c: "NQueensCSP 8 = Inr (projr (NQueensCSP 8))" using NQueensCSP_eq [of 8] by simp
  have f: "(8::int) < int 1000" by simp
  have p: "partial 8 [(A 3, 1)]" by (simp add: partial_def keys_def)
  have l: "(8::int) < int (length [(A 3, 1 :: int)]) + int 8" by simp
  note t = backtracking_search_terminates [OF n c]
  from t f have 1: "\<exists>r. backtracking_search 1000 (projr (NQueensCSP 8)) = Inr r
         \<and> backtracking_search (nat 8 + 1) (projr (NQueensCSP 8)) = Inr r" by blast
  from t p l have 2: "\<exists>res. backtrack 8 [(A 3, 1)] (projr (NQueensCSP 8)) = Inr res" by blast
  show ?thesis by (intro conjI n c f 1 p l 2)
qed

section \<open>Board sizes below one\<close>

text \<open>
  Claim C10. \<^verbatim>\<open>NQueensCSP(0)\<close> is constructed: no variables, empty domain mapping, empty
  constraint index; and the search on it returns the empty dict in its first frame.
\<close>

theorem NQueensCSP_zero:
  "NQueensCSP 0 =
     Inr \<lparr>size_csp = 0, variables = [], domains = Map.empty, constraints_index = Map.empty,
          inference = NQueensCSP_inference\<rparr>
   \<and> backtracking_search (Suc frames)
        \<lparr>size_csp = 0, variables = [], domains = Map.empty, constraints_index = Map.empty,
         inference = NQueensCSP_inference\<rparr> = Inr (Some [])"
  by (simp add: NQueensCSP_def symbols_def backtracking_search_def backtrack.simps(2)
      is_complete_def)

theorem NQueensCSP_zero_witness:
  "NQueensCSP 0 = Inr (projr (NQueensCSP 0))
   \<and> variables (projr (NQueensCSP 0)) = []
   \<and> backtracking_search 1 (projr (NQueensCSP 0)) = Inr (Some [])"
  using NQueensCSP_zero [of 0] by simp

text \<open>
  Claim C4, as amended. The constructor has no check of its own on \<open>N\<close>. It fails exactly
  for \<open>N < 0\<close>, with the ValueError that \<^verbatim>\<open>symbols\<close> raises, so before any model exists to
  search; \<open>N = 0\<close> is accepted.
\<close>

theorem NQueensCSP_fails_iff:
  "isl (NQueensCSP N) = (N < 0) \<and> (N < 0 \<longrightarrow> NQueensCSP N = Inl ValueError)"
proof (cases "N < 0")
  case True
  then show ?thesis by (simp add: NQueensCSP_def symbols_def)
next
  case False
  then have "0 \<le> N" by simp
  from NQueensCSP_eq [OF this] False show ?thesis by simp
qed

theorem NQueensCSP_fails_iff_witness:
  "(- 1 :: int) < 0 \<and> NQueensCSP (- 1) = Inl ValueError \<and> isl (NQueensCSP (- 1))
   \<and> \<not> (1 :: int) < 0 \<and> \<not> isl (NQueensCSP 1)"
  using NQueensCSP_fails_iff [of "- 1"] NQueensCSP_fails_iff [of 1] by simp

text \<open>The claim as stated fails at \<open>N = 0\<close>: the constructor returns a model.\<close>

theorem NQueensCSP_accepts_zero:
  "(0::int) \<le> 0 \<and> \<not> isl (NQueensCSP 0) \<and> variables (projr (NQueensCSP 0)) = []"
  by (simp add: NQueensCSP_def symbols_def)

section \<open>An inference hook that signals failure\<close>

text \<open>
  Claim C5. When the inference hook returns \<^verbatim>\<open>None\<close> for a consistent candidate, the loop skips
  the recursive call and deletes the tentative binding, but then evaluates
  \<^verbatim>\<open>inferences.keys()\<close> on \<^verbatim>\<open>None\<close>: the call ends with AttributeError instead of going on to
  the next value. The claim does not hold of the code.
\<close>

theorem backtrack_for_inference_None:
  assumes "is_consistent c var val a = Inr True" and "inference c var val = None"
  shows "backtrack_for frames var (val # vals) a c = Inl AttributeError"
proof -
  have "var \<in> set (keys (setitem var val a))"
    by (simp add: keys_def setitem_def AList.dom_update)
  then show ?thesis
    using assms by (simp add: backtrack_for.simps(2) delitem_def)
qed

theorem backtrack_for_inference_None_witness:
  "is_consistent failing_csp (A 0) 0 [] = Inr True
   \<and> inference failing_csp (A 0) 0 = None
   \<and> backtrack_for 1 (A 0) [0, 1] [] failing_csp = Inl AttributeError
   \<and> backtracking_search 3 failing_csp = Inl AttributeError"
proof -
  have 1: "is_consistent failing_csp (A 0) 0 [] = Inr True"
    unfolding failing_csp_def by code_simp
  have 2: "inference failing_csp (A 0) 0 = None"
    unfolding failing_csp_def by code_simp
  note 3 = backtrack_for_inference_None [OF 1 2, of 1 "[1]"]
  have 4: "backtracking_search 3 failing_csp = Inl AttributeError"
    unfolding failing_csp_def by code_simp
  show ?thesis by (intro conjI 1 2 3 4)
qed

end
